theory Spec2Isabelle
  imports Main
begin

section \<open>Python values: exceptions, strings, pixels\<close>

text \<open>
  The script \<^verbatim>\<open>get_missing_imgs_between_folders.py\<close> is embedded function by
  function. Every exception that a modelled operation can raise is a value of \<open>exn\<close>;
  a computation that may raise returns \<open>exn + 'a\<close> with \<open>Inl\<close> for the exception.
  All of them are subclasses of Python's \<^verbatim>\<open>Exception\<close>, which is what the handler of
  \<^verbatim>\<open>check_corners_color\<close> catches.
\<close>

datatype exn =
    FileNotFoundError | NotADirectoryError | IsADirectoryError | FileExistsError
  | SameFileError | UnidentifiedImageError | IndexError | TypeError | ValueError

fun is_Exception :: "exn \<Rightarrow> bool" where
  "is_Exception FileNotFoundError = True"
| "is_Exception NotADirectoryError = True"
| "is_Exception IsADirectoryError = True"
| "is_Exception FileExistsError = True"
| "is_Exception SameFileError = True"
| "is_Exception UnidentifiedImageError = True"
| "is_Exception IndexError = True"
| "is_Exception TypeError = True"
| "is_Exception ValueError = True"

text \<open>
  \<^verbatim>\<open>all(p(x) for x in xs)\<close>: the elements are tested in order, the first false one
  ends the test, and an exception raised by a test is raised by \<^verbatim>\<open>all\<close>.
\<close>

fun all_py :: "('a \<Rightarrow> exn + bool) \<Rightarrow> 'a list \<Rightarrow> exn + bool" where
  "all_py p [] = Inr True"
| "all_py p (x # xs) =
     (case p x of
        Inl e \<Rightarrow> Inl e
      | Inr b \<Rightarrow> if b then all_py p xs else Inr False)"

text \<open>A list display \<^verbatim>\<open>[e1, e2, ...]\<close>: the elements are evaluated left to right.\<close>

fun collect :: "(exn + 'a) list \<Rightarrow> exn + 'a list" where
  "collect [] = Inr []"
| "collect (x # xs) =
     (case x of
        Inl e \<Rightarrow> Inl e
      | Inr v \<Rightarrow> (case collect xs of Inl e \<Rightarrow> Inl e | Inr vs \<Rightarrow> Inr (v # vs)))"

subsection \<open>Strings\<close>

text \<open>
  File names and paths are strings of 8-bit characters. \<^verbatim>\<open>str.lower\<close> is modelled on
  the ASCII letters; every other character is left as it is.
\<close>

definition lower_char :: "char \<Rightarrow> char" where
  "lower_char c =
     (case map_of (zip ''ABCDEFGHIJKLMNOPQRSTUVWXYZ'' ''abcdefghijklmnopqrstuvwxyz'') c of
        Some d \<Rightarrow> d
      | None \<Rightarrow> c)"

definition lower :: "string \<Rightarrow> string" where
  "lower s = map lower_char s"

text \<open>\<^verbatim>\<open>s.rfind(c)\<close>: the highest index of \<open>c\<close> in \<open>s\<close>, or \<open>-1\<close>.\<close>

definition rfind :: "string \<Rightarrow> char \<Rightarrow> int" where
  "rfind s c =
     (if c \<in> set s then int (length s) - 1 - int (length (takeWhile (\<lambda>d. d \<noteq> c) (rev s)))
      else - 1)"

text \<open>
  \<^verbatim>\<open>os.path.splitext\<close> (\<^verbatim>\<open>genericpath._splitext\<close> with separator \<^verbatim>\<open>/\<close>): the
  extension starts at the last dot of the last path component, unless that component
  consists of dots only up to there.
\<close>

definition splitext :: "string \<Rightarrow> string \<times> string" where
  "splitext p =
     (let sepIndex = rfind p (CHR ''/'');
          dotIndex = rfind p (CHR ''.'')
      in if dotIndex > sepIndex \<and>
            list_ex (\<lambda>c. c \<noteq> CHR ''.'')
              (take (nat (dotIndex - (sepIndex + 1))) (drop (nat (sepIndex + 1)) p))
         then (take (nat dotIndex) p, drop (nat dotIndex) p)
         else (p, []))"

text \<open>\<^verbatim>\<open>os.path.join(a, b)\<close> and \<^verbatim>\<open>os.path.basename(p)\<close> of \<^verbatim>\<open>posixpath\<close>.\<close>

definition join :: "string \<Rightarrow> string \<Rightarrow> string" where
  "join a b =
     (if b \<noteq> [] \<and> hd b = CHR ''/'' then b
      else if a = [] \<or> last a = CHR ''/'' then a @ b
      else a @ ''/'' @ b)"

definition basename :: "string \<Rightarrow> string" where
  "basename p = rev (takeWhile (\<lambda>c. c \<noteq> CHR ''/'') (rev p))"

subsection \<open>Parsing the colour string\<close>

text \<open>
  \<^verbatim>\<open>int(s, 16)\<close> on an ASCII string: surrounding whitespace (blank, tab, line feed,
  vertical tab, form feed, carriage return) is stripped, a sign and the prefix \<^verbatim>\<open>0x\<close>
  are optional, and the digits may be separated by single underscores. Anything else
  raises \<^verbatim>\<open>ValueError\<close>.
\<close>

definition is_space :: "char \<Rightarrow> bool" where
  "is_space c \<longleftrightarrow>
     c \<in> set [CHR 0x09, CHR 0x0A, CHR 0x0B, CHR 0x0C, CHR 0x0D, CHR '' '']"

definition strip :: "string \<Rightarrow> string" where
  "strip s = rev (dropWhile is_space (rev (dropWhile is_space s)))"

definition hex_digit :: "char \<Rightarrow> int option" where
  "hex_digit c =
     map_of (zip ''0123456789abcdefABCDEF''
       [0, 1, 2, 3, 4, 5, 6, 7, 8, 9, 10, 11, 12, 13, 14, 15, 10, 11, 12, 13, 14, 15]) c"

fun hex_digits :: "string \<Rightarrow> int \<Rightarrow> int option" where
  "hex_digits [] acc = Some acc"
| "hex_digits [c] acc =
     (case hex_digit c of None \<Rightarrow> None | Some v \<Rightarrow> Some (16 * acc + v))"
| "hex_digits (c # d # ds) acc =
     (if c = CHR ''_'' then
        (case hex_digit d of None \<Rightarrow> None | Some v \<Rightarrow> hex_digits ds (16 * acc + v))
      else
        (case hex_digit c of None \<Rightarrow> None | Some v \<Rightarrow> hex_digits (d # ds) (16 * acc + v)))"

definition int16 :: "string \<Rightarrow> exn + int" where
  "int16 s =
     (let t = strip s;
          neg = (t \<noteq> [] \<and> hd t = CHR ''-'');
          u = (if t \<noteq> [] \<and> (hd t = CHR ''-'' \<or> hd t = CHR ''+'') then tl t else t);
          v = (case u of
                 z # x # r \<Rightarrow>
                   if z = CHR ''0'' \<and> (x = CHR ''x'' \<or> x = CHR ''X'')
                   then (case r of y # r' \<Rightarrow> if y = CHR ''_'' then r' else r | [] \<Rightarrow> r)
                   else u
               | _ \<Rightarrow> u)
      in case v of
           [] \<Rightarrow> Inl ValueError
         | d # ds \<Rightarrow>
             (case hex_digit d of
                None \<Rightarrow> Inl ValueError
              | Some a \<Rightarrow>
                  (case hex_digits ds a of
                     None \<Rightarrow> Inl ValueError
                   | Some n \<Rightarrow> Inr (if neg then - n else n))))"

text \<open>
  Line 76:
  \<^verbatim>\<open>tuple(int(target_color.lstrip('#')[i:i+2], 16) for i in (0, 2, 4))\<close>.
\<close>

definition parse_color :: "string \<Rightarrow> exn + int list" where
  "parse_color target_color =
     (let s = dropWhile (\<lambda>c. c = CHR ''#'') target_color
      in collect (map (\<lambda>i. int16 (take 2 (drop i s))) [0, 2, 4]))"

subsection \<open>Images\<close>

text \<open>
  A pixel of a multi-band image is a tuple of integers, one per band; a pixel of a
  single-band image (modes L, P, 1, I, F) is a number. An image has a size and a pixel at
  every coordinate inside it.
\<close>

datatype pixel = Scalar int | Tuple "int list"

record image =
  width :: nat
  height :: nat
  pixel_at :: "nat \<Rightarrow> nat \<Rightarrow> pixel"

text \<open>
  \<^verbatim>\<open>pixels[x, y]\<close> of Pillow's \<^verbatim>\<open>PixelAccess\<close>: a negative index counts from
  the far edge, and an index outside the image raises \<^verbatim>\<open>IndexError\<close>.
\<close>

definition pixels_getitem :: "image \<Rightarrow> int \<Rightarrow> int \<Rightarrow> exn + pixel" where
  "pixels_getitem img x y =
     (let x' = (if x < 0 then int (width img) + x else x);
          y' = (if y < 0 then int (height img) + y else y)
      in if 0 \<le> x' \<and> x' < int (width img) \<and> 0 \<le> y' \<and> y' < int (height img)
         then Inr (pixel_at img (nat x') (nat y'))
         else Inl IndexError)"

text \<open>\<^verbatim>\<open>pixel[i]\<close> and \<^verbatim>\<open>target_color[i]\<close> for \<open>i\<close> in \<^verbatim>\<open>range(3)\<close>.\<close>

definition pixel_getitem :: "pixel \<Rightarrow> nat \<Rightarrow> exn + int" where
  "pixel_getitem p i =
     (case p of
        Scalar v \<Rightarrow> Inl TypeError
      | Tuple cs \<Rightarrow> if i < length cs then Inr (cs ! i) else Inl IndexError)"

definition tuple_getitem :: "int list \<Rightarrow> nat \<Rightarrow> exn + int" where
  "tuple_getitem t i = (if i < length t then Inr (t ! i) else Inl IndexError)"

text \<open>Lines 43 to 45.\<close>

definition channel_close :: "pixel \<Rightarrow> int list \<Rightarrow> int \<Rightarrow> nat \<Rightarrow> exn + bool" where
  "channel_close pixel target_color threshold i =
     (case pixel_getitem pixel i of
        Inl e \<Rightarrow> Inl e
      | Inr a \<Rightarrow>
          (case tuple_getitem target_color i of
             Inl e \<Rightarrow> Inl e
           | Inr b \<Rightarrow> Inr (\<bar>a - b\<bar> \<le> threshold)))"

definition is_corner_color :: "pixel \<Rightarrow> int list \<Rightarrow> int \<Rightarrow> exn + bool" where
  "is_corner_color pixel target_color threshold =
     all_py (channel_close pixel target_color threshold) [0, 1, 2]"

section \<open>The file system\<close>

text \<open>
  A file is either something Pillow decodes to an image or other bytes. A directory node
  holds the names \<^verbatim>\<open>os.listdir\<close> reports, in the order it reports them. Nodes are
  addressed by their absolute path, a list of components from the root. Symbolic links,
  permissions and case-insensitive file systems are not modelled, and the path syntax is
  that of \<^verbatim>\<open>posixpath\<close>.
\<close>

datatype fdata = Img image | Raw "nat list"

datatype node = File fdata | Dir "string list"

record fs =
  nodes :: "string list \<Rightarrow> node option"
  cwd :: "string list"

text \<open>The components of a path string: the non-empty pieces between slashes.\<close>

fun segs :: "string \<Rightarrow> string list" where
  "segs [] = [[]]"
| "segs (c # cs) =
     (if c = CHR ''/'' then [] # segs cs
      else (case segs cs of s # ss \<Rightarrow> (c # s) # ss | [] \<Rightarrow> [[c]]))"

definition comps :: "string \<Rightarrow> string list" where
  "comps p = filter (\<lambda>s. s \<noteq> []) (segs p)"

text \<open>
  Path resolution walks the components from the root or the working directory. Every
  node passed through must be a directory; \<^verbatim>\<open>.\<close> stays, \<^verbatim>\<open>..\<close> goes up (the root is
  its own parent). The node reached need not exist. A path that ends with a slash must
  reach a directory, and the empty path resolves to nothing.
\<close>

definition step_dir :: "string list \<Rightarrow> string \<Rightarrow> string list" where
  "step_dir cur c =
     (if c = ''.'' then cur else if c = ''..'' then butlast cur else cur @ [c])"

fun walk :: "(string list \<Rightarrow> node option) \<Rightarrow> string list \<Rightarrow> string list \<Rightarrow> exn + string list" where
  "walk m cur [] = Inr cur"
| "walk m cur (c # cs) =
     (case m cur of
        None \<Rightarrow> Inl FileNotFoundError
      | Some (File d) \<Rightarrow> Inl NotADirectoryError
      | Some (Dir es) \<Rightarrow> walk m (step_dir cur c) cs)"

definition start_dir :: "fs \<Rightarrow> string \<Rightarrow> string list" where
  "start_dir F p = (if p \<noteq> [] \<and> hd p = CHR ''/'' then [] else cwd F)"

definition resolve :: "fs \<Rightarrow> string \<Rightarrow> exn + string list" where
  "resolve F p =
     (if p = [] then Inl FileNotFoundError
      else walk (nodes F) (start_dir F p)
             (comps p @ (if last p = CHR ''/'' then [''.''] else [])))"

text \<open>\<^verbatim>\<open>os.stat\<close>, \<^verbatim>\<open>os.path.isdir\<close>, \<^verbatim>\<open>os.path.exists\<close>, \<^verbatim>\<open>os.listdir\<close>.\<close>

definition stat :: "fs \<Rightarrow> string \<Rightarrow> exn + string list \<times> node" where
  "stat F p =
     (case resolve F p of
        Inl e \<Rightarrow> Inl e
      | Inr q \<Rightarrow> (case nodes F q of None \<Rightarrow> Inl FileNotFoundError | Some n \<Rightarrow> Inr (q, n)))"

definition isdir :: "fs \<Rightarrow> string \<Rightarrow> bool" where
  "isdir F p \<longleftrightarrow> (case stat F p of Inr (q, Dir es) \<Rightarrow> True | _ \<Rightarrow> False)"

definition path_exists :: "fs \<Rightarrow> string \<Rightarrow> bool" where
  "path_exists F p \<longleftrightarrow> (case stat F p of Inr r \<Rightarrow> True | Inl e \<Rightarrow> False)"

definition listdir :: "fs \<Rightarrow> string \<Rightarrow> exn + string list" where
  "listdir F p =
     (case stat F p of
        Inl e \<Rightarrow> Inl e
      | Inr (q, File d) \<Rightarrow> Inl NotADirectoryError
      | Inr (q, Dir es) \<Rightarrow> Inr es)"

text \<open>Lines 39 to 41.\<close>

definition list_files :: "fs \<Rightarrow> string \<Rightarrow> exn + string list" where
  "list_files F directory = listdir F directory"

text \<open>
  \<^verbatim>\<open>os.makedirs(name, exist_ok=True)\<close>: every directory missing along the path is
  created and entered in its parent's listing. Passing through a regular file raises,
  and so does a path that ends at a regular file.
\<close>

definition add_name :: "string list \<Rightarrow> string \<Rightarrow> string list" where
  "add_name es c = (if c \<in> set es then es else es @ [c])"

fun mkpath :: "(string list \<Rightarrow> node option) \<Rightarrow> string list \<Rightarrow> string list
    \<Rightarrow> (exn + unit) \<times> (string list \<Rightarrow> node option)" where
  "mkpath m cur [] =
     (case m cur of
        Some (File d) \<Rightarrow> (Inl FileExistsError, m)
      | Some (Dir es) \<Rightarrow> (Inr (), m)
      | None \<Rightarrow> (Inl FileNotFoundError, m))"
| "mkpath m cur (c # cs) =
     (case m cur of
        None \<Rightarrow> (Inl FileNotFoundError, m)
      | Some (File d) \<Rightarrow> (Inl NotADirectoryError, m)
      | Some (Dir es) \<Rightarrow>
          if c = ''.'' \<or> c = ''..'' then mkpath m (step_dir cur c) cs
          else
            (case m (cur @ [c]) of
               Some n \<Rightarrow> mkpath m (cur @ [c]) cs
             | None \<Rightarrow>
                 mkpath (m(cur @ [c] \<mapsto> Dir [], cur \<mapsto> Dir (add_name es c))) (cur @ [c]) cs))"

definition makedirs :: "string \<Rightarrow> fs \<Rightarrow> (exn + unit) \<times> fs" where
  "makedirs name F =
     (if name = [] then (Inl FileNotFoundError, F)
      else (case mkpath (nodes F) (start_dir F name) (comps name) of
              (r, m) \<Rightarrow> (r, F\<lparr>nodes := m\<rparr>)))"

text \<open>\<^verbatim>\<open>Image.open(path)\<close> followed by \<^verbatim>\<open>img.load()\<close>.\<close>

definition image_open :: "fs \<Rightarrow> string \<Rightarrow> exn + image" where
  "image_open F p =
     (case stat F p of
        Inl e \<Rightarrow> Inl e
      | Inr (q, Dir es) \<Rightarrow> Inl IsADirectoryError
      | Inr (q, File (Raw bs)) \<Rightarrow> Inl UnidentifiedImageError
      | Inr (q, File (Img img)) \<Rightarrow> Inr img)"

text \<open>
  \<^verbatim>\<open>shutil.copy(src, dst)\<close>: a destination that is a directory stands for the file of
  the source's base name inside it; copying a file onto itself raises; the source must be
  a regular file; the destination is created in its parent directory or overwritten.
\<close>

definition samefile :: "fs \<Rightarrow> string \<Rightarrow> string \<Rightarrow> bool" where
  "samefile F a b \<longleftrightarrow>
     (case stat F a of
        Inl e \<Rightarrow> False
      | Inr (p, n) \<Rightarrow> (case stat F b of Inl e \<Rightarrow> False | Inr (q, n') \<Rightarrow> p = q))"

definition read_file :: "fs \<Rightarrow> string \<Rightarrow> exn + fdata" where
  "read_file F p =
     (case stat F p of
        Inl e \<Rightarrow> Inl e
      | Inr (q, Dir es) \<Rightarrow> Inl IsADirectoryError
      | Inr (q, File d) \<Rightarrow> Inr d)"

definition write_file :: "fs \<Rightarrow> string \<Rightarrow> fdata \<Rightarrow> exn + fs" where
  "write_file F p d =
     (case resolve F p of
        Inl e \<Rightarrow> Inl e
      | Inr q \<Rightarrow>
          (case nodes F q of
             Some (Dir es) \<Rightarrow> Inl IsADirectoryError
           | _ \<Rightarrow>
               if q = [] then Inl FileNotFoundError
               else
                 (case nodes F (butlast q) of
                    Some (Dir es) \<Rightarrow>
                      Inr (F\<lparr>nodes := (nodes F)(butlast q \<mapsto> Dir (add_name es (last q)),
                                                  q \<mapsto> File d)\<rparr>)
                  | _ \<Rightarrow> Inl FileNotFoundError)))"

definition copy_fs :: "string \<Rightarrow> string \<Rightarrow> fs \<Rightarrow> exn + fs" where
  "copy_fs src dst F =
     (let dst1 = (if isdir F dst then join dst (basename src) else dst)
      in if samefile F src dst1 then Inl SameFileError
         else (case read_file F src of
                 Inl e \<Rightarrow> Inl e
               | Inr d \<Rightarrow> write_file F dst1 d))"

section \<open>The program state\<close>

text \<open>
  Besides the file system the program acts on three things, each kept as a log: the
  calls of \<^verbatim>\<open>shutil.copy\<close> that succeeded (source and destination as passed), the lines
  \<^verbatim>\<open>check_corners_color\<close> prints (\<^verbatim>\<open>Error processing image {path}: {e}\<close>), and the
  message boxes shown: the error "Source or upscaled directory is invalid.", the info
  "No files were flagged as missing." and the info "Flagged {n} files as missing and
  copied to the missing directory.".
\<close>

datatype dialog = Error_invalid_directory | Info_none_flagged | Info_flagged nat

record world =
  fsys :: fs
  copied :: "(string \<times> string) list"
  printed :: "(string \<times> exn) list"
  dialogs :: "dialog list"

text \<open>The entry widgets and the check box the function reads.\<close>

record gui =
  source_dir_entry :: string
  upscaled_dir_entry :: string
  missing_dir_entry :: string
  check_var :: int
  color_entry :: string

definition shutil_copy :: "string \<Rightarrow> string \<Rightarrow> world \<Rightarrow> (exn + unit) \<times> world" where
  "shutil_copy src dst w =
     (case copy_fs src dst (fsys w) of
        Inl e \<Rightarrow> (Inl e, w)
      | Inr F \<Rightarrow> (Inr (), w\<lparr>fsys := F, copied := copied w @ [(src, dst)]\<rparr>))"

section \<open>The corner matcher\<close>

text \<open>Lines 47 to 57: the body of the \<^verbatim>\<open>try\<close>, then the function with its handler.\<close>

definition corners_body :: "fs \<Rightarrow> string \<Rightarrow> int list \<Rightarrow> int \<Rightarrow> exn + bool" where
  "corners_body F image_path target_color threshold =
     (case image_open F image_path of
        Inl e \<Rightarrow> Inl e
      | Inr img \<Rightarrow>
          (let w = int (width img); h = int (height img)
           in case collect [pixels_getitem img 0 0, pixels_getitem img 0 (h - 1),
                            pixels_getitem img (w - 1) 0, pixels_getitem img (w - 1) (h - 1)] of
                Inl e \<Rightarrow> Inl e
              | Inr corners \<Rightarrow>
                  all_py (\<lambda>corner. is_corner_color corner target_color threshold) corners))"

definition check_corners_color :: "string \<Rightarrow> int list \<Rightarrow> int \<Rightarrow> world \<Rightarrow> (exn + bool) \<times> world" where
  "check_corners_color image_path target_color threshold w =
     (case corners_body (fsys w) image_path target_color threshold of
        Inr b \<Rightarrow> (Inr b, w)
      | Inl e \<Rightarrow>
          if is_Exception e then (Inr False, w\<lparr>printed := printed w @ [(image_path, e)]\<rparr>)
          else (Inl e, w))"

section \<open>The resolver\<close>

text \<open>
  Lines 84 to 102, one iteration: the result is the new value of
  \<^verbatim>\<open>copied_files_count\<close>, or the exception that leaves the loop.
\<close>

definition loop_body :: "string \<Rightarrow> string \<Rightarrow> string set \<Rightarrow> bool \<Rightarrow> int list
    \<Rightarrow> string \<Rightarrow> nat \<Rightarrow> world \<Rightarrow> (exn + nat) \<times> world" where
  "loop_body source_dir missing_dir upscaled_files_base_names check_black_corners
       target_color_rgb filename copied_files_count w =
     (let base_name = fst (splitext filename);
          base_name_lower = lower base_name
      in if base_name_lower \<in> upscaled_files_base_names then (Inr copied_files_count, w)
         else
           (let source_path = join source_dir filename
            in case (if check_black_corners
                     then check_corners_color source_path target_color_rgb 10 w
                     else (Inr True, w)) of
                 (Inl e, w1) \<Rightarrow> (Inl e, w1)
               | (Inr passed, w1) \<Rightarrow>
                   if \<not> passed then (Inr copied_files_count, w1)
                   else
                     (let missing_path = join missing_dir filename
                      in case shutil_copy source_path missing_path w1 of
                           (Inl e, w2) \<Rightarrow> (Inl e, w2)
                         | (Inr u, w2) \<Rightarrow> (Inr (copied_files_count + 1), w2))))"

fun copy_loop :: "string \<Rightarrow> string \<Rightarrow> string set \<Rightarrow> bool \<Rightarrow> int list
    \<Rightarrow> string list \<Rightarrow> nat \<Rightarrow> world \<Rightarrow> (exn + nat) \<times> world" where
  "copy_loop source_dir missing_dir names check rgb [] copied_files_count w =
     (Inr copied_files_count, w)"
| "copy_loop source_dir missing_dir names check rgb (filename # rest) copied_files_count w =
     (case loop_body source_dir missing_dir names check rgb filename copied_files_count w of
        (Inl e, w1) \<Rightarrow> (Inl e, w1)
      | (Inr n, w1) \<Rightarrow> copy_loop source_dir missing_dir names check rgb rest n w1)"

text \<open>Line 79: the set of lowered base names of the entries of the upscaled directory.\<close>

definition base_names :: "string list \<Rightarrow> string set" where
  "base_names entries = set (map (\<lambda>f. lower (fst (splitext f))) entries)"

text \<open>Lines 69 to 71: \<^verbatim>\<open>if not os.path.exists(missing_dir): os.makedirs(...)\<close>.\<close>

definition ensure_missing_dir :: "string \<Rightarrow> world \<Rightarrow> (exn + unit) \<times> world" where
  "ensure_missing_dir missing_dir w =
     (if \<not> path_exists (fsys w) missing_dir
      then (case makedirs missing_dir (fsys w) of (r, F) \<Rightarrow> (r, w\<lparr>fsys := F\<rparr>))
      else (Inr (), w))"

text \<open>Lines 59 to 108.\<close>

definition find_and_copy_missing_images :: "gui \<Rightarrow> world \<Rightarrow> (exn + unit) \<times> world" where
  "find_and_copy_missing_images g w =
     (let source_dir = source_dir_entry g;
          upscaled_dir = upscaled_dir_entry g;
          missing_dir = missing_dir_entry g
      in if \<not> isdir (fsys w) source_dir \<or> \<not> isdir (fsys w) upscaled_dir
         then (Inr (), w\<lparr>dialogs := dialogs w @ [Error_invalid_directory]\<rparr>)
         else
           (case ensure_missing_dir missing_dir w of
              (Inl e, w1) \<Rightarrow> (Inl e, w1)
            | (Inr u, w1) \<Rightarrow>
                (let check_black_corners = (check_var g \<noteq> 0);
                     target_color = color_entry g
                 in case parse_color target_color of
                      Inl e \<Rightarrow> (Inl e, w1)
                    | Inr target_color_rgb \<Rightarrow>
                        (case listdir (fsys w1) upscaled_dir of
                           Inl e \<Rightarrow> (Inl e, w1)
                         | Inr upscaled_entries \<Rightarrow>
                             (let upscaled_files_base_names = base_names upscaled_entries
                              in case listdir (fsys w1) source_dir of
                                   Inl e \<Rightarrow> (Inl e, w1)
                                 | Inr source_entries \<Rightarrow>
                                     (case copy_loop source_dir missing_dir
                                             upscaled_files_base_names check_black_corners
                                             target_color_rgb source_entries 0 w1 of
                                        (Inl e, w2) \<Rightarrow> (Inl e, w2)
                                      | (Inr n, w2) \<Rightarrow>
                                          (Inr (),
                                           w2\<lparr>dialogs := dialogs w2 @
                                             [if n = 0 then Info_none_flagged
                                              else Info_flagged n]\<rparr>)))))))"

section \<open>Notions the statements use\<close>

text \<open>
  The four corner pixels of an image, in the order the matcher reads them, and what it
  means for one of them to be within the threshold of the target colour on each of its
  first three channels.
\<close>

definition corners :: "image \<Rightarrow> pixel list" where
  "corners img =
     [pixel_at img 0 0, pixel_at img 0 (height img - 1),
      pixel_at img (width img - 1) 0, pixel_at img (width img - 1) (height img - 1)]"




text \<open>
  A name as \<^verbatim>\<open>os.listdir\<close> returns it: one path component, not empty, not \<^verbatim>\<open>.\<close> or
  \<^verbatim>\<open>..\<close>. A directory whose listing consists of such names.
\<close>

definition is_name :: "string \<Rightarrow> bool" where
  "is_name e \<longleftrightarrow> e \<noteq> [] \<and> CHR ''/'' \<notin> set e \<and> e \<noteq> ''.'' \<and> e \<noteq> ''..''"


text \<open>
  The contract of the corner matcher as a predicate on the file system, and the decision
  of the loop for one source entry: its lowered base name is not among the upscaled base
  names, and the corner check is off or passes. The copy calls of a list of entries.
\<close>

definition matches :: "fs \<Rightarrow> string \<Rightarrow> int list \<Rightarrow> int \<Rightarrow> bool" where
  "matches F image_path target_color threshold \<longleftrightarrow>
     corners_body F image_path target_color threshold = Inr True"

definition flagged :: "fs \<Rightarrow> string \<Rightarrow> string set \<Rightarrow> bool \<Rightarrow> int list \<Rightarrow> string \<Rightarrow> bool" where
  "flagged F source_dir names check rgb f \<longleftrightarrow>
     lower (fst (splitext f)) \<notin> names \<and> (check \<longrightarrow> matches F (join source_dir f) rgb 10)"

definition pairs :: "string \<Rightarrow> string \<Rightarrow> string list \<Rightarrow> (string \<times> string) list" where
  "pairs S M fs = map (\<lambda>f. (join S f, join M f)) fs"

text \<open>
  The path \<^verbatim>\<open>shutil.copy\<close> writes for the entry \<open>f\<close>: the joined path, or the file of
  the same name inside it when the joined path is a directory.
\<close>

definition landing :: "fs \<Rightarrow> string \<Rightarrow> string \<Rightarrow> string" where
  "landing F missing_dir f =
     (if isdir F (join missing_dir f) then join (join missing_dir f) f else join missing_dir f)"



section \<open>Notions the proofs use\<close>

text \<open>
  The directory in which the entries of a path \<open>D\<close> are looked up; the node a copy of
  entry \<open>f\<close> into that directory writes, and the file system after the write; a copy
  that is in place, so that making it again changes nothing.
\<close>

definition dir_at :: "fs \<Rightarrow> string \<Rightarrow> string list option" where
  "dir_at F D =
     (case walk (nodes F) (start_dir F D) (comps D) of
        Inl e \<Rightarrow> None
      | Inr d \<Rightarrow> (case nodes F d of Some (Dir es) \<Rightarrow> Some d | _ \<Rightarrow> None))"

definition is_dir_node :: "node option \<Rightarrow> bool" where
  "is_dir_node n \<longleftrightarrow> (\<exists>es. n = Some (Dir es))"

definition target :: "fs \<Rightarrow> string list \<Rightarrow> string \<Rightarrow> string list" where
  "target F m f = (if is_dir_node (nodes F (m @ [f])) then m @ [f, f] else m @ [f])"

definition put :: "fs \<Rightarrow> string list \<Rightarrow> string \<Rightarrow> fdata \<Rightarrow> fs" where
  "put F t f d =
     F\<lparr>nodes := (nodes F)
        (butlast t \<mapsto> (case nodes F (butlast t) of Some (Dir es) \<Rightarrow> Dir (add_name es f) | _ \<Rightarrow> Dir []),
         t \<mapsto> File d)\<rparr>"

definition placed :: "fs \<Rightarrow> string list \<Rightarrow> string \<Rightarrow> fdata \<Rightarrow> bool" where
  "placed F t f d \<longleftrightarrow>
     nodes F t = Some (File d) \<and> (\<exists>es. nodes F (butlast t) = Some (Dir es) \<and> f \<in> set es)"

definition settled :: "fs \<Rightarrow> string \<Rightarrow> string \<Rightarrow> string \<Rightarrow> bool" where
  "settled F S M f \<longleftrightarrow> copy_fs (join S f) (join M f) F = Inr F"

text \<open>
  How the program changes the file system: directories stay directories and their
  listings only get longer, files stay files. During the loop the nodes of the source
  directory keep their content.
\<close>

definition grows :: "fs \<Rightarrow> fs \<Rightarrow> bool" where
  "grows F F' \<longleftrightarrow>
     cwd F' = cwd F \<and>
     (\<forall>p es. nodes F p = Some (Dir es) \<longrightarrow> (\<exists>xs. nodes F' p = Some (Dir (es @ xs)))) \<and>
     (\<forall>p d. nodes F p = Some (File d) \<longrightarrow> (\<exists>d'. nodes F' p = Some (File d')))"

definition same_kind :: "node option \<Rightarrow> node option \<Rightarrow> bool" where
  "same_kind n n' \<longleftrightarrow> n = n' \<or> (is_dir_node n \<and> is_dir_node n')"

definition keeps :: "string list \<Rightarrow> fs \<Rightarrow> fs \<Rightarrow> bool" where
  "keeps s F F' \<longleftrightarrow>
     grows F F' \<and> nodes F' s = nodes F s \<and>
     (\<forall>g. is_name g \<longrightarrow> same_kind (nodes F (s @ [g])) (nodes F' (s @ [g])))"

definition extends :: "(string list \<Rightarrow> node option) \<Rightarrow> (string list \<Rightarrow> node option) \<Rightarrow> bool" where
  "extends m m' \<longleftrightarrow>
     (\<forall>p es. m p = Some (Dir es) \<longrightarrow> (\<exists>xs. m' p = Some (Dir (es @ xs)) \<and> list_all is_name xs)) \<and>
     (\<forall>p d. m p = Some (File d) \<longrightarrow> m' p = Some (File d))"

section \<open>Example worlds\<close>

text \<open>
  Three images: a black RGBA one and a grey RGB one of two by two pixels, and an empty
  one. Four small worlds, each with a source directory \<^verbatim>\<open>/s\<close> and an upscaled
  directory \<^verbatim>\<open>/u\<close>; \<^verbatim>\<open>/m\<close> does not exist yet. The panel is the state of the
  widgets: the three paths, the corner check off, the colour black.
\<close>

definition black :: image where
  "black = \<lparr>width = 2, height = 2, pixel_at = (\<lambda>x y. Tuple [0, 0, 0, 255])\<rparr>"

definition grey :: image where
  "grey = \<lparr>width = 2, height = 2, pixel_at = (\<lambda>x y. Tuple [50, 50, 50])\<rparr>"

definition empty_image :: image where
  "empty_image = \<lparr>width = 0, height = 0, pixel_at = (\<lambda>x y. Tuple [0, 0, 0])\<rparr>"

definition panel :: gui where
  "panel =
     \<lparr>source_dir_entry = ''/s'', upscaled_dir_entry = ''/u'', missing_dir_entry = ''/m'',
      check_var = 0, color_entry = ''#000000''\<rparr>"

definition shelf_fs :: fs where
  "shelf_fs =
     \<lparr>nodes = [[] \<mapsto> Dir [''s'', ''u''],
               [''s''] \<mapsto> Dir [''cat.png'', ''dog.jpg'', ''night.png'', ''notes.txt'', ''empty.png''],
               [''s'', ''cat.png''] \<mapsto> File (Img black),
               [''s'', ''dog.jpg''] \<mapsto> File (Img grey),
               [''s'', ''night.png''] \<mapsto> File (Img black),
               [''s'', ''notes.txt''] \<mapsto> File (Raw [110, 111]),
               [''s'', ''empty.png''] \<mapsto> File (Img empty_image),
               [''u''] \<mapsto> Dir [''Cat.JPG''],
               [''u'', ''Cat.JPG''] \<mapsto> File (Img black)],
      cwd = []\<rparr>"

definition shelf :: world where
  "shelf = \<lparr>fsys = shelf_fs, copied = [], printed = [], dialogs = []\<rparr>"

text \<open>A source directory with a subdirectory between two images.\<close>

definition attic_fs :: fs where
  "attic_fs =
     \<lparr>nodes = [[] \<mapsto> Dir [''s'', ''u''],
               [''s''] \<mapsto> Dir [''a.png'', ''sub'', ''z.png''],
               [''s'', ''a.png''] \<mapsto> File (Img black),
               [''s'', ''sub''] \<mapsto> Dir [],
               [''s'', ''z.png''] \<mapsto> File (Img black),
               [''u''] \<mapsto> Dir []],
      cwd = []\<rparr>"

definition attic :: world where
  "attic = \<lparr>fsys = attic_fs, copied = [], printed = [], dialogs = []\<rparr>"

text \<open>Two source images whose names differ in case only.\<close>

definition twins_fs :: fs where
  "twins_fs =
     \<lparr>nodes = [[] \<mapsto> Dir [''s'', ''u''],
               [''s''] \<mapsto> Dir [''A.png'', ''a.PNG''],
               [''s'', ''A.png''] \<mapsto> File (Img black),
               [''s'', ''a.PNG''] \<mapsto> File (Img grey),
               [''u''] \<mapsto> Dir []],
      cwd = []\<rparr>"

definition twins :: world where
  "twins = \<lparr>fsys = twins_fs, copied = [], printed = [], dialogs = []\<rparr>"

text \<open>An upscaled directory that holds two subdirectories and no file.\<close>

definition versions_fs :: fs where
  "versions_fs =
     \<lparr>nodes = [[] \<mapsto> Dir [''s'', ''u''],
               [''s''] \<mapsto> Dir [''v1.0.png'', ''Photo.PNG''],
               [''s'', ''v1.0.png''] \<mapsto> File (Img black),
               [''s'', ''Photo.PNG''] \<mapsto> File (Img black),
               [''u''] \<mapsto> Dir [''v1.0'', ''photo''],
               [''u'', ''v1.0''] \<mapsto> Dir [],
               [''u'', ''photo''] \<mapsto> Dir []],
      cwd = []\<rparr>"

definition versions :: world where
  "versions = \<lparr>fsys = versions_fs, copied = [], printed = [], dialogs = []\<rparr>"

section \<open>Evaluation\<close>

lemmas path_eval =
  comps_def resolve_def start_dir_def stat_def isdir_def path_exists_def listdir_def
  makedirs_def step_dir_def add_name_def image_open_def samefile_def read_file_def
  write_file_def copy_fs_def join_def basename_def

lemmas string_eval =
  splitext_def rfind_def lower_def lower_char_def base_names_def parse_color_def int16_def
  strip_def is_space_def hex_digit_def

lemmas matcher_eval =
  corners_body_def check_corners_color_def pixels_getitem_def is_corner_color_def
  channel_close_def pixel_getitem_def tuple_getitem_def

lemmas run_eval =
  path_eval string_eval matcher_eval shutil_copy_def loop_body_def ensure_missing_dir_def
  find_and_copy_missing_images_def

lemmas world_eval =
  shelf_fs_def shelf_def panel_def black_def grey_def empty_image_def attic_fs_def attic_def
  twins_fs_def twins_def versions_fs_def versions_def

section \<open>The corner matcher: results\<close>







lemma check_corners_color_result:
  "check_corners_color p t thr w =
     (case corners_body (fsys w) p t thr of
        Inr b \<Rightarrow> (Inr b, w)
      | Inl e \<Rightarrow> (Inr False, w\<lparr>printed := printed w @ [(p, e)]\<rparr>))"
  by (cases "corners_body (fsys w) p t thr")
     (auto simp: check_corners_color_def intro: is_Exception.elims(3))




section \<open>Validation of the directories\<close>

text \<open>
  Claim C4. When the source directory or the upscaled directory does not exist or is not
  a directory, the function shows the error box and returns: the file system is as
  before (the missing directory is not created), no copy is made, and no count is
  reported.
\<close>

theorem invalid_directory_aborts:
  assumes "\<not> isdir (fsys w) (source_dir_entry g) \<or> \<not> isdir (fsys w) (upscaled_dir_entry g)"
  shows "find_and_copy_missing_images g w =
           (Inr (), w\<lparr>dialogs := dialogs w @ [Error_invalid_directory]\<rparr>)"
  using assms by (auto simp: find_and_copy_missing_images_def)

theorem invalid_directory_aborts_witness:
  "\<not> isdir (fsys shelf) ''/nowhere'' \<and>
   find_and_copy_missing_images (panel\<lparr>source_dir_entry := ''/nowhere''\<rparr>) shelf =
     (Inr (), shelf\<lparr>dialogs := [Error_invalid_directory]\<rparr>) \<and>
   \<not> isdir (fsys shelf) ''/s/cat.png'' \<and>
   find_and_copy_missing_images (panel\<lparr>upscaled_dir_entry := ''/s/cat.png''\<rparr>) shelf =
     (Inr (), shelf\<lparr>dialogs := [Error_invalid_directory]\<rparr>) \<and>
   \<not> path_exists (fsys shelf) ''/m''"
proof -
  have n1: "\<not> isdir (fsys shelf) ''/nowhere''"
    by (simp add: path_eval world_eval)
  have n2: "\<not> isdir (fsys shelf) ''/s/cat.png''"
    by (simp add: path_eval world_eval)
  have n3: "\<not> path_exists (fsys shelf) ''/m''"
    by (simp add: path_eval world_eval)
  have "find_and_copy_missing_images (panel\<lparr>source_dir_entry := ''/nowhere''\<rparr>) shelf =
     (Inr (), shelf\<lparr>dialogs := [Error_invalid_directory]\<rparr>)"
    using invalid_directory_aborts [of shelf "panel\<lparr>source_dir_entry := ''/nowhere''\<rparr>"] n1
    by (simp add: panel_def shelf_def)
  moreover have "find_and_copy_missing_images (panel\<lparr>upscaled_dir_entry := ''/s/cat.png''\<rparr>) shelf =
     (Inr (), shelf\<lparr>dialogs := [Error_invalid_directory]\<rparr>)"
    using invalid_directory_aborts [of shelf "panel\<lparr>upscaled_dir_entry := ''/s/cat.png''\<rparr>"] n2
    by (simp add: panel_def shelf_def)
  ultimately show ?thesis
    using n1 n2 n3 by simp
qed

section \<open>Paths\<close>

lemma segs_not_Nil [simp]: "segs p \<noteq> []"
  by (induction p) (auto split: list.splits)

lemma segs_no_slash: "CHR ''/'' \<notin> set f \<Longrightarrow> segs f = [f]"
  by (induction f) auto

lemma segs_slash: "segs (a @ CHR ''/'' # b) = segs a @ segs b"
  by (induction a) (auto split: list.splits)

lemma comps_slash: "comps (a @ CHR ''/'' # b) = comps a @ comps b"
  by (simp add: comps_def segs_slash)

lemma comps_name: "is_name f \<Longrightarrow> comps f = [f]"
  by (simp add: comps_def is_name_def segs_no_slash)

lemma comps_Nil [simp]: "comps [] = []"
  by (simp add: comps_def)

lemma comps_join: 
  assumes "is_name f" shows "comps (join D f) = comps D @ [f]"
proof -
  have f: "f \<noteq> []" "hd f \<noteq> CHR ''/''" using assms by (cases f; auto simp: is_name_def)+
  show ?thesis
  proof (cases "D = []")
    case True then show ?thesis using f assms by (simp add: join_def comps_name)
  next
    case False
    show ?thesis
    proof (cases "last D = CHR ''/''")
      case True
      then obtain D0 where D: "D = D0 @ [CHR ''/'']" using False by (metis append_butlast_last_id)
      have "comps D = comps D0" unfolding D using comps_slash [of D0 "[]"] by simp
      moreover have "join D f = D0 @ CHR ''/'' # f" using f D by (simp add: join_def)
      ultimately show ?thesis using assms by (simp add: comps_slash comps_name)
    next
      case nl: False
      then have "join D f = D @ CHR ''/'' # f" using f False by (simp add: join_def)
      then show ?thesis using assms by (simp add: comps_slash comps_name)
    qed
  qed
qed

lemma start_dir_join: "is_name f \<Longrightarrow> start_dir F (join D f) = start_dir F D"
  by (cases D; cases f) (auto simp: start_dir_def join_def is_name_def)

lemma join_not_Nil: "is_name f \<Longrightarrow> join D f \<noteq> []"
  by (auto simp: join_def is_name_def)

lemma last_join: "is_name f \<Longrightarrow> last (join D f) \<noteq> CHR ''/''"
  by (cases f rule: rev_cases) (auto simp: join_def is_name_def)

lemma takeWhile_until: "c \<notin> set xs \<Longrightarrow> takeWhile (\<lambda>d. d \<noteq> c) (xs @ c # ys) = xs"
  by (induction xs) auto

lemma takeWhile_all: "c \<notin> set xs \<Longrightarrow> takeWhile (\<lambda>d. d \<noteq> c) xs = xs"
  by (induction xs) auto

lemma basename_join: "is_name f \<Longrightarrow> basename (join D f) = f"
proof -
  assume a: "is_name f"
  then have f: "f \<noteq> []" "hd f \<noteq> CHR ''/''" "CHR ''/'' \<notin> set f" by (cases f; auto simp: is_name_def)+
  have tw: "\<And>x. takeWhile (\<lambda>c. c \<noteq> CHR ''/'') (rev f @ CHR ''/'' # x) = rev f"
    using f(3) by (simp add: takeWhile_until)
  have tw0: "takeWhile (\<lambda>c. c \<noteq> CHR ''/'') (rev f) = rev f"
    using f(3) by auto
  show ?thesis
  proof (cases "D = []")
    case True then show ?thesis using f by (simp add: join_def basename_def takeWhile_all)
  next
    case False
    show ?thesis
    proof (cases "last D = CHR ''/''")
      case True
      then obtain D0 where D: "D = D0 @ [CHR ''/'']" using False by (metis append_butlast_last_id)
      then show ?thesis using f tw by (simp add: join_def basename_def)
    next
      case nl: False
      then show ?thesis using f tw False by (simp add: join_def basename_def)
    qed
  qed
qed


lemma walk_append:
  "walk m cur (cs @ ds) = (case walk m cur cs of Inl e \<Rightarrow> Inl e | Inr d \<Rightarrow> walk m d ds)"
  by (induction cs arbitrary: cur) (auto split: option.splits node.splits)

lemma step_dir_name: "is_name f \<Longrightarrow> step_dir d f = d @ [f]"
  by (simp add: step_dir_def is_name_def)

lemma resolve_join:
  assumes "is_name f"
  shows "resolve F (join D f) =
     (case walk (nodes F) (start_dir F D) (comps D) of
        Inl e \<Rightarrow> Inl e
      | Inr d \<Rightarrow>
          (case nodes F d of
             None \<Rightarrow> Inl FileNotFoundError
           | Some (File x) \<Rightarrow> Inl NotADirectoryError
           | Some (Dir es) \<Rightarrow> Inr (d @ [f])))"
  using assms
  by (simp add: resolve_def join_not_Nil last_join start_dir_join comps_join walk_append
      step_dir_name split: sum.splits option.splits node.splits)

lemma resolve_join_dir_at:
  "is_name f \<Longrightarrow> resolve F (join D f) = Inr t \<longleftrightarrow> (\<exists>d. dir_at F D = Some d \<and> t = d @ [f])"
  by (auto simp: resolve_join dir_at_def split: sum.splits option.splits node.splits)

lemma resolve_join_Some:
  "is_name f \<Longrightarrow> dir_at F D = Some d \<Longrightarrow> resolve F (join D f) = Inr (d @ [f])"
  by (simp add: resolve_join_dir_at)

lemma isdir_dir_at:
  "isdir F D \<longleftrightarrow> D \<noteq> [] \<and> (\<exists>d. dir_at F D = Some d)"
  by (auto simp: isdir_def stat_def resolve_def dir_at_def walk_append step_dir_def
      split: sum.splits option.splits node.splits if_splits)


lemma dir_at_resolve:
  "D \<noteq> [] \<Longrightarrow> last D \<noteq> CHR ''/'' \<Longrightarrow>
   dir_at F D = (case resolve F D of
                   Inl e \<Rightarrow> None
                 | Inr d \<Rightarrow> (case nodes F d of Some (Dir es) \<Rightarrow> Some d | _ \<Rightarrow> None))"
  by (simp add: dir_at_def resolve_def)

lemma isdir_join:
  "is_name f \<Longrightarrow> isdir F (join D f) \<longleftrightarrow>
     (\<exists>d es. dir_at F D = Some d \<and> nodes F (d @ [f]) = Some (Dir es))"
  by (auto simp: isdir_def stat_def resolve_join dir_at_def
      split: sum.splits option.splits node.splits)

lemma dir_at_join:
  assumes "is_name f"
  shows "dir_at F (join D f) = Some x \<longleftrightarrow>
     (\<exists>d es. dir_at F D = Some d \<and> x = d @ [f] \<and> nodes F x = Some (Dir es))"
proof -
  have "dir_at F (join D f) =
     (case resolve F (join D f) of
        Inl e \<Rightarrow> None
      | Inr d \<Rightarrow> (case nodes F d of Some (Dir es) \<Rightarrow> Some d | _ \<Rightarrow> None))"
    using assms by (rule_tac dir_at_resolve) (simp_all add: join_not_Nil last_join)
  then show ?thesis
    using assms
    by (auto simp: resolve_join_dir_at resolve_join_Some split: sum.splits option.splits node.splits)
qed

lemma listdir_Inr:
  "listdir F D = Inr es \<longleftrightarrow> (\<exists>q. resolve F D = Inr q \<and> nodes F q = Some (Dir es))"
  by (auto simp: listdir_def stat_def split: sum.splits option.splits node.splits)

lemma isdir_iff:
  "isdir F D \<longleftrightarrow> (\<exists>q es. resolve F D = Inr q \<and> nodes F q = Some (Dir es))"
  by (auto simp: isdir_def stat_def split: sum.splits option.splits node.splits)

lemma isdir_listdir: "isdir F D \<longleftrightarrow> (\<exists>es. listdir F D = Inr es)"
  by (auto simp: isdir_iff listdir_Inr)

lemma segs_no_slash_inside: "s \<in> set (segs p) \<Longrightarrow> CHR ''/'' \<notin> set s"
  by (induction p arbitrary: s) (auto split: if_splits list.splits)

lemma comps_parts: "c \<in> set (comps p) \<Longrightarrow> c \<noteq> [] \<and> CHR ''/'' \<notin> set c"
  by (auto simp: comps_def segs_no_slash_inside)



section \<open>One copy\<close>

text \<open>
  When the source directory resolves, a copy of its entry \<open>f\<close> into the missing
  directory succeeds in exactly one way: the entry is a regular file, the node written is
  not that file and not a directory, and its parent is a directory.
\<close>

lemma write_file_Inr:
  assumes "write_file F p d = Inr F'"
  obtains t es where "resolve F p = Inr t" "\<forall>es'. nodes F t \<noteq> Some (Dir es')" "t \<noteq> []"
    "nodes F (butlast t) = Some (Dir es)"
    "F' = F\<lparr>nodes := (nodes F)(butlast t \<mapsto> Dir (add_name es (last t)), t \<mapsto> File d)\<rparr>"
  using assms
  by (auto simp: write_file_def split: sum.splits option.splits node.splits if_splits)

lemma read_file_Inr:
  "read_file F p = Inr d \<longleftrightarrow> (\<exists>q. resolve F p = Inr q \<and> nodes F q = Some (File d))"
  by (auto simp: read_file_def stat_def split: sum.splits option.splits node.splits)

lemma samefile_iff:
  "samefile F a b \<longleftrightarrow>
     (\<exists>q. resolve F a = Inr q \<and> resolve F b = Inr q \<and> nodes F q \<noteq> None)"
  by (auto simp: samefile_def stat_def split: sum.splits option.splits)

lemma target_simps [simp]: "last (target F m f) = f" "target F m f \<noteq> []"
  "butlast (target F m f) = (if is_dir_node (nodes F (m @ [f])) then m @ [f] else m)"
  by (auto simp: target_def butlast_append)

lemma copy_fs_join_iff:
  assumes n: "is_name f" and s: "dir_at F S = Some s"
  shows "copy_fs (join S f) (join M f) F = Inr F' \<longleftrightarrow>
    (\<exists>m d. dir_at F M = Some m \<and> nodes F (s @ [f]) = Some (File d) \<and>
       target F m f \<noteq> s @ [f] \<and> \<not> is_dir_node (nodes F (target F m f)) \<and>
       is_dir_node (nodes F (butlast (target F m f))) \<and> F' = put F (target F m f) f d)"
  (is "?L \<longleftrightarrow> ?R")
proof
  assume c: ?L
  define dst1 where "dst1 = (if isdir F (join M f) then join (join M f) f else join M f)"
  have c': "\<not> samefile F (join S f) dst1"
    and "\<exists>d. read_file F (join S f) = Inr d \<and> write_file F dst1 d = Inr F'"
    using c n by (auto simp: copy_fs_def dst1_def basename_join Let_def split: if_splits sum.splits)
  then obtain d where r: "read_file F (join S f) = Inr d" and w: "write_file F dst1 d = Inr F'"
    by blast
  have rs: "resolve F (join S f) = Inr (s @ [f])"
    using n s by (simp add: resolve_join_dir_at)
  with r have src: "nodes F (s @ [f]) = Some (File d)"
    by (simp add: read_file_Inr)
  from w obtain t es where t: "resolve F dst1 = Inr t" "\<forall>es'. nodes F t \<noteq> Some (Dir es')" "t \<noteq> []"
    "nodes F (butlast t) = Some (Dir es)"
    "F' = F\<lparr>nodes := (nodes F)(butlast t \<mapsto> Dir (add_name es (last t)), t \<mapsto> File d)\<rparr>"
    by (rule write_file_Inr)
  have "\<exists>m. dir_at F M = Some m \<and> t = target F m f"
  proof (cases "isdir F (join M f)")
    case True
    then obtain m es' where m: "dir_at F M = Some m" "nodes F (m @ [f]) = Some (Dir es')"
      using n by (auto simp: isdir_join)
    then have "dir_at F (join M f) = Some (m @ [f])"
      using n by (simp add: dir_at_join)
    moreover have "dst1 = join (join M f) f" using True by (simp add: dst1_def)
    ultimately have "t = (m @ [f]) @ [f]"
      using t(1) n by (simp add: resolve_join_dir_at)
    then show ?thesis using m by (auto simp: target_def is_dir_node_def)
  next
    case False
    then have d1: "dst1 = join M f" by (simp add: dst1_def)
    then obtain m where m: "dir_at F M = Some m" "t = m @ [f]"
      using t(1) n by (auto simp: resolve_join_dir_at)
    with False n have "\<not> is_dir_node (nodes F (m @ [f]))"
      by (auto simp: isdir_join is_dir_node_def)
    then show ?thesis using m by (auto simp: target_def)
  qed
  then obtain m where m: "dir_at F M = Some m" "t = target F m f" by blast
  have ne: "t \<noteq> s @ [f]"
    using c' rs t(1) src by (auto simp: samefile_iff)
  have "F' = put F t f d"
    using t(4,5) m(2) by (simp add: put_def)
  then show ?R
    using m src ne t(2,4) by (auto simp: is_dir_node_def)
next
  assume ?R
  then obtain m d where m: "dir_at F M = Some m" and src: "nodes F (s @ [f]) = Some (File d)"
    and ne: "target F m f \<noteq> s @ [f]" and nd: "\<not> is_dir_node (nodes F (target F m f))"
    and pd: "is_dir_node (nodes F (butlast (target F m f)))" and F': "F' = put F (target F m f) f d"
    by blast
  define dst1 where "dst1 = (if isdir F (join M f) then join (join M f) f else join M f)"
  have rs: "resolve F (join S f) = Inr (s @ [f])"
    using n s by (simp add: resolve_join_dir_at)
  have rd: "resolve F dst1 = Inr (target F m f)"
  proof (cases "isdir F (join M f)")
    case True
    then have dn: "is_dir_node (nodes F (m @ [f]))"
      using n m by (auto simp: isdir_join is_dir_node_def)
    then have "dir_at F (join M f) = Some (m @ [f])"
      using n m by (auto simp: dir_at_join is_dir_node_def)
    then show ?thesis
      using True n dn by (simp add: dst1_def resolve_join_Some target_def)
  next
    case False
    then have "\<not> is_dir_node (nodes F (m @ [f]))"
      using n m by (auto simp: isdir_join is_dir_node_def)
    then show ?thesis
      using False n m by (simp add: dst1_def resolve_join_Some target_def)
  qed
  have sf: "\<not> samefile F (join S f) dst1"
    using rs rd ne by (auto simp: samefile_iff)
  have rf: "read_file F (join S f) = Inr d"
    using rs src by (simp add: read_file_Inr)
  from pd obtain es where es: "nodes F (butlast (target F m f)) = Some (Dir es)"
    by (auto simp: is_dir_node_def)
  have "write_file F dst1 d = Inr F'"
    using rd nd es F'
    by (auto simp: write_file_def put_def is_dir_node_def split: option.splits node.splits)
  then show ?L
    using sf rf n by (auto simp: copy_fs_def dst1_def basename_join Let_def split: if_splits)
qed

section \<open>What the operations preserve\<close>

lemma grows_refl: "grows F F"
  by (simp add: grows_def)

lemma grows_trans:
  assumes "grows F G" and "grows G H"
  shows "grows F H"
proof -
  have "\<exists>xs. nodes H p = Some (Dir (es @ xs))" if "nodes F p = Some (Dir es)" for p es
  proof -
    from that assms(1) obtain xs where "nodes G p = Some (Dir (es @ xs))"
      unfolding grows_def by blast
    with assms(2) obtain ys where "nodes H p = Some (Dir ((es @ xs) @ ys))"
      unfolding grows_def by blast
    then have "nodes H p = Some (Dir (es @ (xs @ ys)))" by simp
    then show ?thesis by (rule exI)
  qed
  moreover have "\<exists>d'. nodes H p = Some (File d')" if "nodes F p = Some (File d)" for p d
  proof -
    from that assms(1) obtain d1 where "nodes G p = Some (File d1)"
      unfolding grows_def by blast
    with assms(2) show ?thesis unfolding grows_def by blast
  qed
  moreover have "cwd H = cwd F" using assms by (simp add: grows_def)
  ultimately show ?thesis unfolding grows_def by blast
qed

lemma same_kind_refl: "same_kind n n"
  by (simp add: same_kind_def)

lemma same_kind_trans: "same_kind a b \<Longrightarrow> same_kind b c \<Longrightarrow> same_kind a c"
  by (auto simp: same_kind_def)

lemma keeps_refl: "keeps s F F"
  by (simp add: keeps_def grows_refl same_kind_refl)

lemma keeps_trans:
  assumes "keeps s F G" and "keeps s G H"
  shows "keeps s F H"
proof -
  have "grows F H" using assms grows_trans by (auto simp: keeps_def)
  moreover have "nodes H s = nodes F s" using assms by (simp add: keeps_def)
  moreover have "same_kind (nodes F (s @ [g])) (nodes H (s @ [g]))" if "is_name g" for g
    using that assms same_kind_trans unfolding keeps_def by blast
  ultimately show ?thesis by (simp add: keeps_def)
qed

lemma grows_dir: "grows F F' \<Longrightarrow> is_dir_node (nodes F p) \<Longrightarrow> is_dir_node (nodes F' p)"
  unfolding grows_def is_dir_node_def by blast

lemma walk_mono:
  "(\<And>p. is_dir_node (m p) \<Longrightarrow> is_dir_node (m' p)) \<Longrightarrow> walk m cur cs = Inr q \<Longrightarrow>
   walk m' cur cs = Inr q"
proof (induction cs arbitrary: cur)
  case Nil
  then show ?case by simp
next
  case (Cons c cs)
  from Cons.prems(2) obtain es where es: "m cur = Some (Dir es)"
    and w: "walk m (step_dir cur c) cs = Inr q"
    by (auto split: option.splits node.splits)
  then have "is_dir_node (m' cur)" using Cons.prems(1) by (simp add: is_dir_node_def)
  then obtain es' where "m' cur = Some (Dir es')" by (auto simp: is_dir_node_def)
  then show ?case using Cons.IH [OF Cons.prems(1) w] by simp
qed

lemma dir_at_grows:
  assumes "grows F F'" and "dir_at F D = Some d"
  shows "dir_at F' D = Some d"
proof -
  from assms(2) have w: "walk (nodes F) (start_dir F D) (comps D) = Inr d"
    and dn: "is_dir_node (nodes F d)"
    by (auto simp: dir_at_def is_dir_node_def split: sum.splits option.splits node.splits)
  have st: "start_dir F' D = start_dir F D"
    using assms(1) by (simp add: start_dir_def grows_def)
  have "walk (nodes F') (start_dir F' D) (comps D) = Inr d"
    unfolding st using w grows_dir [OF assms(1)] by (rule_tac walk_mono) auto
  moreover have "is_dir_node (nodes F' d)" using dn grows_dir [OF assms(1)] by simp
  ultimately show ?thesis
    by (auto simp: dir_at_def is_dir_node_def)
qed





lemma put_grows:
  assumes "\<not> is_dir_node (nodes F t)" and "is_dir_node (nodes F (butlast t))"
  shows "grows F (put F t f d)"
proof -
  from assms have ne: "t \<noteq> butlast t" by auto
  from assms(2) obtain es where es: "nodes F (butlast t) = Some (Dir es)"
    by (auto simp: is_dir_node_def)
  have "add_name es f = es @ (if f \<in> set es then [] else [f])" by (simp add: add_name_def)
  then show ?thesis
    using assms(1) es ne unfolding grows_def put_def is_dir_node_def
    by (auto simp: fun_upd_def)
qed



lemma copy_keeps:
  assumes n: "is_name f" and s: "dir_at F S = Some s"
    and c: "copy_fs (join S f) (join M f) F = Inr F'"
  shows "keeps s F F'"
proof -
  from c obtain m d where m: "dir_at F M = Some m" and src: "nodes F (s @ [f]) = Some (File d)"
    and ne: "target F m f \<noteq> s @ [f]" and nd: "\<not> is_dir_node (nodes F (target F m f))"
    and pd: "is_dir_node (nodes F (butlast (target F m f)))" and F': "F' = put F (target F m f) f d"
    using copy_fs_join_iff [OF n s] by blast
  let ?t = "target F m f"
  have sd: "is_dir_node (nodes F s)"
    using s by (auto simp: dir_at_def is_dir_node_def split: sum.splits option.splits node.splits)
  have g: "grows F F'" unfolding F' using nd pd by (rule put_grows)
  have ts: "?t \<noteq> s" using sd nd by auto
  have bs: "butlast ?t \<noteq> s"
  proof
    assume "butlast ?t = s"
    then have "?t = s @ [f]"
      by (metis append_butlast_last_id target_simps(1) target_simps(2))
    then show False using ne by simp
  qed
  have same_s: "nodes F' s = nodes F s"
    unfolding F' put_def using ts bs by simp
  have "same_kind (nodes F (s @ [g])) (nodes F' (s @ [g]))" if "is_name g" for g
  proof (cases "s @ [g] = butlast ?t")
    case True
    then show ?thesis
      using pd grows_dir [OF g] by (auto simp: same_kind_def)
  next
    case False
    have "s @ [g] \<noteq> ?t"
    proof
      assume e: "s @ [g] = ?t"
      then have "g = f" by (metis last_snoc target_simps(1))
      then show False using e ne by simp
    qed
    then show ?thesis
      unfolding F' put_def using False by (simp add: same_kind_def)
  qed
  then show ?thesis
    using g same_s by (simp add: keeps_def)
qed

lemma keeps_image_open:
  assumes "keeps s F F'" and "dir_at F S = Some s" and "is_name g"
  shows "image_open F' (join S g) = image_open F (join S g)"
proof -
  have d': "dir_at F' S = Some s"
    using assms(1,2) dir_at_grows by (auto simp: keeps_def)
  have r: "resolve F (join S g) = Inr (s @ [g])" "resolve F' (join S g) = Inr (s @ [g])"
    using assms(2,3) d' by (simp_all add: resolve_join_Some)
  have "same_kind (nodes F (s @ [g])) (nodes F' (s @ [g]))"
    using assms(1,3) by (simp add: keeps_def)
  then show ?thesis
    using r by (auto simp: image_open_def stat_def same_kind_def is_dir_node_def
        split: option.splits)
qed

lemma keeps_flagged:
  assumes "keeps s F F'" and "dir_at F S = Some s" and "is_name g"
  shows "flagged F' S names check rgb g = flagged F S names check rgb g"
  using keeps_image_open [OF assms]
  by (simp add: flagged_def matches_def corners_body_def)


section \<open>Creating the missing directory\<close>

lemma extends_refl: "extends m m"
  by (simp add: extends_def)

lemma extends_trans:
  assumes "extends a b" and "extends b c"
  shows "extends a c"
proof -
  have "\<exists>xs. c p = Some (Dir (es @ xs)) \<and> list_all is_name xs" if "a p = Some (Dir es)" for p es
  proof -
    from that assms(1) obtain xs where x: "b p = Some (Dir (es @ xs))" "list_all is_name xs"
      unfolding extends_def by blast
    with assms(2) obtain ys where y: "c p = Some (Dir ((es @ xs) @ ys))" "list_all is_name ys"
      unfolding extends_def by blast
    then have "c p = Some (Dir (es @ (xs @ ys))) \<and> list_all is_name (xs @ ys)"
      using x by simp
    then show ?thesis by (rule exI)
  qed
  moreover have "c p = Some (File d)" if "a p = Some (File d)" for p d
    using that assms unfolding extends_def by blast
  ultimately show ?thesis unfolding extends_def by blast
qed

lemma mkpath_extends:
  assumes "mkpath m cur cs = (r, m')" and "\<forall>c\<in>set cs. c \<noteq> [] \<and> CHR ''/'' \<notin> set c"
  shows "extends m m'"
  using assms
proof (induction m cur cs rule: mkpath.induct)
  case (1 m cur)
  then show ?case by (auto simp: extends_refl split: option.splits node.splits)
next
  case (2 m cur c cs)
  show ?case
  proof (cases "m cur")
    case None
    then show ?thesis using "2.prems" by (simp add: extends_refl)
  next
    case (Some nd)
    show ?thesis
    proof (cases nd)
      case (File d)
      then show ?thesis using Some "2.prems" by (simp add: extends_refl)
    next
      case (Dir es)
      note a1 = Some and a2 = Dir
      note cur = Some [unfolded Dir]
      show ?thesis
      proof (cases "c = ''.'' \<or> c = ''..''")
        case True
        then show ?thesis using "2.IH"(1) [OF a1 a2] "2.prems" cur by auto
      next
        case nd: False
        show ?thesis
        proof (cases "m (cur @ [c])")
          case (Some n')
          then show ?thesis using "2.IH"(3) [OF a1 a2 nd Some] "2.prems" cur nd by auto
        next
          case None
          let ?m2 = "m(cur @ [c] \<mapsto> Dir [], cur \<mapsto> Dir (add_name es c))"
          have r: "mkpath ?m2 (cur @ [c]) cs = (r, m')"
            using "2.prems"(1) cur nd None by simp
          have "\<forall>c\<in>set cs. c \<noteq> [] \<and> CHR ''/'' \<notin> set c"
            using "2.prems"(2) by simp
          then have e2: "extends ?m2 m'"
            by (rule "2.IH"(2) [OF a1 a2 nd None r])
          have cn: "is_name c" using nd "2.prems"(2) by (simp add: is_name_def)
          have "extends m ?m2"
            unfolding extends_def
          proof (intro conjI allI impI)
            fix p es0 assume p: "m p = Some (Dir es0)"
            then have pn: "p \<noteq> cur @ [c]" using None by auto
            show "\<exists>xs. ?m2 p = Some (Dir (es0 @ xs)) \<and> list_all is_name xs"
            proof (cases "p = cur")
              case True
              then have "es0 = es" using p cur by simp
              then have "?m2 p = Some (Dir (es0 @ (if c \<in> set es then [] else [c]))) \<and>
                         list_all is_name (if c \<in> set es then [] else [c])"
                using True cn by (simp add: add_name_def)
              then show ?thesis by (rule exI)
            next
              case False
              then have "?m2 p = Some (Dir (es0 @ [])) \<and> list_all is_name []" using pn p by simp
              then show ?thesis by (rule exI)
            qed
          next
            fix p d assume p: "m p = Some (File d)"
            then have "p \<noteq> cur @ [c]" "p \<noteq> cur" using None cur by auto
            then show "?m2 p = Some (File d)" using p by simp
          qed
          then show ?thesis using e2 by (rule extends_trans)
        qed
      qed
    qed
  qed
qed



lemma makedirs_extends:
  "makedirs M F = (r, F') \<Longrightarrow> extends (nodes F) (nodes F') \<and> cwd F' = cwd F"
  using mkpath_extends [of "nodes F" "start_dir F M" "comps M"] comps_parts
  by (auto simp: makedirs_def extends_refl split: if_splits prod.splits)



lemma ensure_missing_dir_facts:
  assumes "ensure_missing_dir M w = (r, w1)"
  shows "copied w1 = copied w" and "dialogs w1 = dialogs w" and "printed w1 = printed w"
    and "extends (nodes (fsys w)) (nodes (fsys w1))" and "cwd (fsys w1) = cwd (fsys w)"
  using assms makedirs_extends [of M "fsys w"]
  by (auto simp: ensure_missing_dir_def extends_refl split: if_splits prod.splits)



section \<open>The loop\<close>

lemma loop_body_skip:
  assumes "\<not> flagged (fsys w) S names check rgb f"
  shows "\<exists>w'. loop_body S M names check rgb f n w = (Inr n, w') \<and> fsys w' = fsys w \<and>
           copied w' = copied w \<and> dialogs w' = dialogs w"
  using assms
  by (cases "corners_body (fsys w) (join S f) rgb 10")
     (auto simp: loop_body_def Let_def flagged_def matches_def check_corners_color_result)

lemma loop_body_copy:
  assumes "flagged (fsys w) S names check rgb f"
  shows "loop_body S M names check rgb f n w =
     (case copy_fs (join S f) (join M f) (fsys w) of
        Inl e \<Rightarrow> (Inl e, w)
      | Inr F' \<Rightarrow> (Inr (n + 1), w\<lparr>fsys := F', copied := copied w @ [(join S f, join M f)]\<rparr>))"
  using assms
  by (auto simp: loop_body_def Let_def flagged_def matches_def check_corners_color_result
      shutil_copy_def split: sum.splits)

lemma copy_loop_append:
  "copy_loop S M names check rgb (xs @ ys) n w =
     (case copy_loop S M names check rgb xs n w of
        (Inl e, w1) \<Rightarrow> (Inl e, w1)
      | (Inr n1, w1) \<Rightarrow> copy_loop S M names check rgb ys n1 w1)"
  by (induction xs arbitrary: n w) (auto split: prod.splits sum.splits)

lemma copy_loop_complete:
  assumes "list_all is_name es" and "dir_at (fsys w) S = Some s"
    and "copy_loop S M names check rgb es n w = (Inr n', w')"
  shows "n' = n + length (filter (flagged (fsys w) S names check rgb) es) \<and>
         copied w' = copied w @ pairs S M (filter (flagged (fsys w) S names check rgb) es) \<and>
         keeps s (fsys w) (fsys w') \<and> dialogs w' = dialogs w"
  using assms
proof (induction es arbitrary: n w)
  case Nil
  then show ?case by (simp add: keeps_refl pairs_def)
next
  case (Cons f es)
  from Cons.prems(1) have nf: "is_name f" and nes: "list_all is_name es" by simp_all
  let ?P = "flagged (fsys w) S names check rgb"
  obtain n1 w1 where b: "loop_body S M names check rgb f n w = (Inr n1, w1)"
    and l: "copy_loop S M names check rgb es n1 w1 = (Inr n', w')"
    using Cons.prems(3) by (auto split: prod.splits sum.splits)
  have step: "n1 = n + (if ?P f then 1 else 0) \<and>
              copied w1 = copied w @ (if ?P f then [(join S f, join M f)] else []) \<and>
              keeps s (fsys w) (fsys w1) \<and> dialogs w1 = dialogs w"
  proof (cases "?P f")
    case True
    with b obtain F' where c: "copy_fs (join S f) (join M f) (fsys w) = Inr F'"
      and w1: "w1 = w\<lparr>fsys := F', copied := copied w @ [(join S f, join M f)]\<rparr>" and "n1 = n + 1"
      by (auto simp: loop_body_copy split: sum.splits)
    moreover have "keeps s (fsys w) F'"
      using nf Cons.prems(2) c by (rule copy_keeps)
    ultimately show ?thesis using True by simp
  next
    case False
    then show ?thesis using loop_body_skip [OF False, of M n] b by (auto simp: keeps_refl)
  qed
  then have k: "keeps s (fsys w) (fsys w1)" by simp
  then have d1: "dir_at (fsys w1) S = Some s"
    using Cons.prems(2) dir_at_grows by (auto simp: keeps_def)
  have same: "filter (flagged (fsys w1) S names check rgb) es = filter ?P es"
    using nes keeps_flagged [OF k Cons.prems(2)]
    by (intro filter_cong) (auto simp: list_all_iff)
  from Cons.IH [OF nes d1 l] same
  have "n' = n1 + length (filter ?P es)"
    and "copied w' = copied w1 @ pairs S M (filter ?P es)"
    and "keeps s (fsys w1) (fsys w')" and "dialogs w' = dialogs w1"
    by simp_all
  then show ?case
    using step keeps_trans [OF k] by (auto simp: pairs_def)
qed



text \<open>
  Every copy the loop makes stays in place until the loop ends: the file written holds
  the content of its source, and making the copy again would change nothing.
\<close>

lemma put_idem:
  assumes "t \<noteq> []"
  shows "put F t f d = F \<longleftrightarrow> placed F t f d"
proof
  assume p: "put F t f d = F"
  have ne: "butlast t \<noteq> t" using assms by (metis append_butlast_last_id append_self_conv not_Cons_self2)
  have "nodes (put F t f d) t = Some (File d)" by (simp add: put_def)
  then have a: "nodes F t = Some (File d)" using p by simp
  have "nodes (put F t f d) (butlast t) =
      Some (case nodes F (butlast t) of Some (Dir es) \<Rightarrow> Dir (add_name es f) | _ \<Rightarrow> Dir [])"
    using ne by (simp add: put_def)
  then have b: "nodes F (butlast t) =
      Some (case nodes F (butlast t) of Some (Dir es) \<Rightarrow> Dir (add_name es f) | _ \<Rightarrow> Dir [])"
    using p by simp
  then obtain es where es: "nodes F (butlast t) = Some (Dir es)"
    by (cases "nodes F (butlast t)") (auto split: node.splits)
  with b have "add_name es f = es" by simp
  then have "f \<in> set es" by (auto simp: add_name_def split: if_splits)
  then show "placed F t f d" using a es by (auto simp: placed_def)
next
  assume "placed F t f d"
  then obtain es where a: "nodes F t = Some (File d)" "nodes F (butlast t) = Some (Dir es)" "f \<in> set es"
    by (auto simp: placed_def)
  then have "(nodes F)(butlast t \<mapsto> Dir (add_name es f), t \<mapsto> File d) = nodes F"
    by (auto simp: add_name_def fun_upd_idem)
  then show "put F t f d = F" using a by (simp add: put_def)
qed

lemma settled_iff:
  assumes "is_name f" and "dir_at F S = Some s"
  shows "settled F S M f \<longleftrightarrow>
    (\<exists>m d. dir_at F M = Some m \<and> nodes F (s @ [f]) = Some (File d) \<and>
       target F m f \<noteq> s @ [f] \<and> placed F (target F m f) f d)"
proof -
  have "settled F S M f \<longleftrightarrow>
    (\<exists>m d. dir_at F M = Some m \<and> nodes F (s @ [f]) = Some (File d) \<and>
       target F m f \<noteq> s @ [f] \<and> \<not> is_dir_node (nodes F (target F m f)) \<and>
       is_dir_node (nodes F (butlast (target F m f))) \<and> put F (target F m f) f d = F)"
    unfolding settled_def copy_fs_join_iff [OF assms] by (metis (no_types))
  also have "\<dots> \<longleftrightarrow>
    (\<exists>m d. dir_at F M = Some m \<and> nodes F (s @ [f]) = Some (File d) \<and>
       target F m f \<noteq> s @ [f] \<and> placed F (target F m f) f d)"
    by (auto simp: put_idem placed_def is_dir_node_def)
  finally show ?thesis .
qed

lemma put_is_dir:
  assumes "\<not> is_dir_node (nodes F t)" and "is_dir_node (nodes F (butlast t))"
  shows "is_dir_node (nodes (put F t f d) p) = is_dir_node (nodes F p)"
  using assms by (auto simp: put_def is_dir_node_def split: option.splits node.splits)

lemma target_put:
  assumes "\<not> is_dir_node (nodes F t)" and "is_dir_node (nodes F (butlast t))"
  shows "target (put F t h d) m f = target F m f"
  by (simp add: target_def put_is_dir [OF assms])

lemma settled_after:
  assumes f: "is_name f" and h: "is_name h" and s: "dir_at F S = Some s"
    and c: "copy_fs (join S h) (join M h) F = Inr F'"
    and pre: "f = h \<or> settled F S M f"
  shows "settled F' S M f"
proof -
  from c obtain m dh where m: "dir_at F M = Some m" and src: "nodes F (s @ [h]) = Some (File dh)"
    and ne: "target F m h \<noteq> s @ [h]" and nd: "\<not> is_dir_node (nodes F (target F m h))"
    and pd: "is_dir_node (nodes F (butlast (target F m h)))" and F': "F' = put F (target F m h) h dh"
    using copy_fs_join_iff [OF h s] by blast
  let ?th = "target F m h" and ?tf = "target F m f"
  from pd obtain esh where esh: "nodes F (butlast ?th) = Some (Dir esh)"
    by (auto simp: is_dir_node_def)
  have bne: "butlast ?th \<noteq> ?th"
    by (metis append_butlast_last_id append_self_conv not_Cons_self2 target_simps(2))
  have k: "keeps s F F'" using h s c by (rule copy_keeps)
  then have g: "grows F F'" by (simp add: keeps_def)
  have s': "dir_at F' S = Some s" and m': "dir_at F' M = Some m"
    using g s m dir_at_grows by blast+
  have tg: "target F' m f = ?tf" unfolding F' using nd pd by (rule target_put)
  have nF': "nodes F' = (nodes F)(butlast ?th \<mapsto> Dir (add_name esh h), ?th \<mapsto> File dh)"
    unfolding F' put_def using esh by simp
  have keep_file: "nodes F' (s @ [x]) = Some (File d)" if "is_name x" "nodes F (s @ [x]) = Some (File d)" for x d
  proof -
    have "same_kind (nodes F (s @ [x])) (nodes F' (s @ [x]))"
      using k that(1) by (simp add: keeps_def)
    then show ?thesis using that(2) by (auto simp: same_kind_def is_dir_node_def)
  qed
  have ph: "placed F' ?th h dh"
    using nF' bne by (auto simp: placed_def add_name_def)
  show ?thesis
  proof (cases "f = h")
    case True
    have "target F' m h \<noteq> s @ [h] \<and> placed F' (target F' m h) h dh \<and>
          nodes F' (s @ [h]) = Some (File dh)"
      using tg True ne ph keep_file [OF h src] by simp
    then show ?thesis
      unfolding True settled_iff [OF h s'] using m' by blast
  next
    case False
    then have "settled F S M f" using pre by simp
    then obtain m0 d where m0: "dir_at F M = Some m0" and sf: "nodes F (s @ [f]) = Some (File d)"
      and nef: "target F m0 f \<noteq> s @ [f]" and pl: "placed F (target F m0 f) f d"
      unfolding settled_iff [OF f s] by blast
    have [simp]: "m0 = m" using m0 m by simp
    from pl obtain es where pf: "nodes F ?tf = Some (File d)" "nodes F (butlast ?tf) = Some (Dir es)"
      "f \<in> set es"
      by (auto simp: placed_def)
    have tne: "?tf \<noteq> ?th"
    proof
      assume "?tf = ?th"
      then have "last ?tf = last ?th" by simp
      then show False using False by simp
    qed
    have t1: "?tf \<noteq> butlast ?th" using pf(1) esh by auto
    have t2: "butlast ?tf \<noteq> ?th" using pf(2) nd by (auto simp: is_dir_node_def)
    have "nodes F' ?tf = Some (File d)" unfolding nF' using tne t1 pf(1) by simp
    moreover have "\<exists>es'. nodes F' (butlast ?tf) = Some (Dir es') \<and> f \<in> set es'"
    proof (cases "butlast ?tf = butlast ?th")
      case True
      then have "es = esh" using pf(2) esh by simp
      then show ?thesis unfolding nF' using True bne pf(3) by (auto simp: add_name_def)
    next
      case False
      then show ?thesis unfolding nF' using t2 pf(2,3) by simp
    qed
    ultimately have "placed F' ?tf f d" by (simp add: placed_def)
    then show ?thesis
      unfolding settled_iff [OF f s'] using m' tg nef keep_file [OF f sf] by auto
  qed
qed

lemma loop_settles:
  assumes "list_all is_name es" and "dir_at (fsys w) S = Some s"
    and "copy_loop S M names check rgb es n w = (Inr n', w')"
  shows "(\<forall>f. is_name f \<and> settled (fsys w) S M f \<longrightarrow> settled (fsys w') S M f) \<and>
         (\<forall>f\<in>set es. flagged (fsys w) S names check rgb f \<longrightarrow> settled (fsys w') S M f)"
  using assms
proof (induction es arbitrary: n w)
  case Nil
  then show ?case by simp
next
  case (Cons h es)
  from Cons.prems(1) have nh: "is_name h" and nes: "list_all is_name es" by simp_all
  let ?P = "flagged (fsys w) S names check rgb"
  obtain n1 w1 where b: "loop_body S M names check rgb h n w = (Inr n1, w1)"
    and l: "copy_loop S M names check rgb es n1 w1 = (Inr n', w')"
    using Cons.prems(3) by (auto split: prod.splits sum.splits)
  have step: "keeps s (fsys w) (fsys w1) \<and>
      (\<forall>f. is_name f \<and> settled (fsys w) S M f \<longrightarrow> settled (fsys w1) S M f) \<and>
      (?P h \<longrightarrow> settled (fsys w1) S M h)"
  proof (cases "?P h")
    case True
    with b obtain F' where c: "copy_fs (join S h) (join M h) (fsys w) = Inr F'"
      and w1: "fsys w1 = F'"
      by (auto simp: loop_body_copy split: sum.splits)
    have "keeps s (fsys w) F'" using nh Cons.prems(2) c by (rule copy_keeps)
    moreover have "settled F' S M f" if "is_name f" "f = h \<or> settled (fsys w) S M f" for f
      using that(1) nh Cons.prems(2) c that(2) by (rule settled_after)
    ultimately show ?thesis using w1 nh by auto
  next
    case False
    then show ?thesis using loop_body_skip [OF False, of M n] b by (auto simp: keeps_refl)
  qed
  then have k: "keeps s (fsys w) (fsys w1)" by simp
  then have d1: "dir_at (fsys w1) S = Some s"
    using Cons.prems(2) dir_at_grows by (auto simp: keeps_def)
  note ih = Cons.IH [OF nes d1 l]
  have fl: "flagged (fsys w1) S names check rgb f = ?P f" if "is_name f" for f
    using keeps_flagged [OF k Cons.prems(2) that] .
  show ?case
  proof (intro conjI allI ballI impI)
    fix f assume "is_name f \<and> settled (fsys w) S M f"
    then show "settled (fsys w') S M f" using step ih by blast
  next
    fix f assume f: "f \<in> set (h # es)" and p: "?P f"
    show "settled (fsys w') S M f"
    proof (cases "f = h")
      case True
      then show ?thesis using step ih p nh by blast
    next
      case False
      then have "f \<in> set es" using f by simp
      moreover then have "is_name f" using nes by (simp add: list_all_iff)
      ultimately show ?thesis using ih fl p by blast
    qed
  qed
qed


lemma settled_content:
  assumes f: "is_name f" and s: "dir_at F S = Some s" and st: "settled F S M f"
  shows "\<exists>d. read_file F (join S f) = Inr d \<and> read_file F (landing F M f) = Inr d"
proof -
  from st obtain m d where m: "dir_at F M = Some m" and src: "nodes F (s @ [f]) = Some (File d)"
    and pl: "placed F (target F m f) f d"
    unfolding settled_iff [OF f s] by blast
  have "resolve F (join S f) = Inr (s @ [f])" using f s by (rule resolve_join_Some)
  then have r1: "read_file F (join S f) = Inr d" using src by (simp add: read_file_Inr)
  have "resolve F (landing F M f) = Inr (target F m f)"
  proof (cases "isdir F (join M f)")
    case True
    then have dn: "is_dir_node (nodes F (m @ [f]))"
      using f m by (auto simp: isdir_join is_dir_node_def)
    then have "dir_at F (join M f) = Some (m @ [f])"
      using f m by (auto simp: dir_at_join is_dir_node_def)
    then show ?thesis
      using True f dn by (simp add: landing_def resolve_join_Some target_def)
  next
    case False
    then have "\<not> is_dir_node (nodes F (m @ [f]))"
      using f m by (auto simp: isdir_join is_dir_node_def)
    then show ?thesis
      using False f m by (simp add: landing_def resolve_join_Some target_def)
  qed
  moreover have "nodes F (target F m f) = Some (File d)" using pl by (simp add: placed_def)
  ultimately have "read_file F (landing F M f) = Inr d" by (auto simp: read_file_Inr)
  then show ?thesis using r1 by blast
qed

lemma copy_loop_in_place:
  assumes "list_all is_name es" and "dir_at (fsys w) S = Some s"
    and "copy_loop S M names check rgb es n w = (Inr n', w')"
    and "f \<in> set es" and "flagged (fsys w) S names check rgb f"
  shows "\<exists>d. read_file (fsys w') (join S f) = Inr d \<and>
             read_file (fsys w') (landing (fsys w') M f) = Inr d"
proof -
  have "settled (fsys w') S M f"
    using loop_settles [OF assms(1-3)] assms(4,5) by blast
  moreover have "is_name f" using assms(1,4) by (simp add: list_all_iff)
  moreover have "keeps s (fsys w) (fsys w')"
    using copy_loop_complete [OF assms(1-3)] by simp
  then have "dir_at (fsys w') S = Some s"
    using assms(2) dir_at_grows by (auto simp: keeps_def)
  ultimately show ?thesis using settled_content by blast
qed

section \<open>The whole function\<close>

lemma run_valid:
  assumes "isdir (fsys w) (source_dir_entry g)" and "isdir (fsys w) (upscaled_dir_entry g)"
  shows "find_and_copy_missing_images g w =
     (case ensure_missing_dir (missing_dir_entry g) w of
        (Inl e, w1) \<Rightarrow> (Inl e, w1)
      | (Inr u, w1) \<Rightarrow>
          (case parse_color (color_entry g) of
             Inl e \<Rightarrow> (Inl e, w1)
           | Inr rgb \<Rightarrow>
               (case listdir (fsys w1) (upscaled_dir_entry g) of
                  Inl e \<Rightarrow> (Inl e, w1)
                | Inr us \<Rightarrow>
                    (case listdir (fsys w1) (source_dir_entry g) of
                       Inl e \<Rightarrow> (Inl e, w1)
                     | Inr es \<Rightarrow>
                         (case copy_loop (source_dir_entry g) (missing_dir_entry g) (base_names us)
                                 (check_var g \<noteq> 0) rgb es 0 w1 of
                            (Inl e, w2) \<Rightarrow> (Inl e, w2)
                          | (Inr n, w2) \<Rightarrow>
                              (Inr (), w2\<lparr>dialogs := dialogs w2 @
                                 [if n = 0 then Info_none_flagged else Info_flagged n]\<rparr>))))))"
  using assms
  by (auto simp: find_and_copy_missing_images_def Let_def split: prod.splits sum.splits)








section \<open>Claims about the files copied\<close>












section \<open>Claims about failures\<close>



text \<open>
  Claim C8. When the loop has handled the entries before \<open>f\<close>, \<open>f\<close> is flagged and
  its copy raises \<open>e\<close>, the function ends with \<open>e\<close>: the entries after \<open>f\<close> are not
  looked at, and the world is the one the earlier iterations left. In it the copies of the
  flagged entries before \<open>f\<close> are logged and their files are in the missing directory,
  and no message box has been shown.
\<close>

theorem copy_failure_propagates:
  assumes valid: "isdir (fsys w) (source_dir_entry g)" "isdir (fsys w) (upscaled_dir_entry g)"
    and ens: "ensure_missing_dir (missing_dir_entry g) w = (Inr (), w1)"
    and rgb: "parse_color (color_entry g) = Inr rgb"
    and us: "listdir (fsys w1) (upscaled_dir_entry g) = Inr us"
    and es: "listdir (fsys w1) (source_dir_entry g) = Inr (before @ f # rest)"
    and names: "list_all is_name before"
    and pre: "copy_loop (source_dir_entry g) (missing_dir_entry g) (base_names us)
                (check_var g \<noteq> 0) rgb before 0 w1 = (Inr n, w2)"
    and fl: "flagged (fsys w2) (source_dir_entry g) (base_names us) (check_var g \<noteq> 0) rgb f"
    and fail: "copy_fs (join (source_dir_entry g) f) (join (missing_dir_entry g) f) (fsys w2) = Inl e"
  shows "find_and_copy_missing_images g w = (Inl e, w2) \<and> dialogs w2 = dialogs w \<and>
         copied w2 = copied w @ pairs (source_dir_entry g) (missing_dir_entry g)
           (filter (flagged (fsys w1) (source_dir_entry g) (base_names us) (check_var g \<noteq> 0) rgb) before) \<and>
         (\<forall>h\<in>set before.
            flagged (fsys w1) (source_dir_entry g) (base_names us) (check_var g \<noteq> 0) rgb h \<longrightarrow>
            (\<exists>d. read_file (fsys w2) (join (source_dir_entry g) h) = Inr d \<and>
                 read_file (fsys w2) (landing (fsys w2) (missing_dir_entry g) h) = Inr d))"
proof -
  have "loop_body (source_dir_entry g) (missing_dir_entry g) (base_names us)
          (check_var g \<noteq> 0) rgb f n w2 = (Inl e, w2)"
    using fl fail by (simp add: loop_body_copy)
  then have "copy_loop (source_dir_entry g) (missing_dir_entry g) (base_names us)
          (check_var g \<noteq> 0) rgb (before @ f # rest) 0 w1 = (Inl e, w2)"
    using pre by (simp add: copy_loop_append)
  then have "find_and_copy_missing_images g w = (Inl e, w2)"
    using ens rgb us es by (simp add: run_valid [OF valid])
  moreover have "isdir (fsys w1) (source_dir_entry g)" using es by (auto simp: isdir_listdir)
  then obtain s where s: "dir_at (fsys w1) (source_dir_entry g) = Some s"
    by (auto simp: isdir_dir_at)
  note lc = copy_loop_complete [OF names s pre]
  note ef = ensure_missing_dir_facts [OF ens]
  have "dialogs w2 = dialogs w" using lc ef by simp
  moreover have "copied w2 = copied w @ pairs (source_dir_entry g) (missing_dir_entry g)
           (filter (flagged (fsys w1) (source_dir_entry g) (base_names us) (check_var g \<noteq> 0) rgb) before)"
    using lc ef by simp
  ultimately show ?thesis
    using copy_loop_in_place [OF names s pre] by blast
qed

theorem copy_failure_propagates_witness:
  "fst (find_and_copy_missing_images panel attic) = Inl IsADirectoryError \<and>
   copied (snd (find_and_copy_missing_images panel attic)) = [(''/s/a.png'', ''/m/a.png'')] \<and>
   read_file (fsys (snd (find_and_copy_missing_images panel attic))) ''/m/a.png'' = Inr (Img black) \<and>
   \<not> path_exists (fsys (snd (find_and_copy_missing_images panel attic))) ''/m/z.png'' \<and>
   dialogs (snd (find_and_copy_missing_images panel attic)) = []"
proof -
  define w1 where "w1 = snd (ensure_missing_dir (missing_dir_entry panel) attic)"
  define w2 where "w2 = snd (copy_loop (source_dir_entry panel) (missing_dir_entry panel) (base_names [])
                (check_var panel \<noteq> 0) [0, 0, 0] [''a.png''] 0 w1)"
  have valid: "isdir (fsys attic) (source_dir_entry panel)" "isdir (fsys attic) (upscaled_dir_entry panel)"
    by (simp_all add: path_eval world_eval)
  have ens: "ensure_missing_dir (missing_dir_entry panel) attic = (Inr (), w1)"
    by (simp add: w1_def ensure_missing_dir_def path_eval world_eval)
  have rgb: "parse_color (color_entry panel) = Inr [0, 0, 0]"
    by (simp add: string_eval world_eval)
  have us: "listdir (fsys w1) (upscaled_dir_entry panel) = Inr []"
    by (simp add: w1_def ensure_missing_dir_def path_eval world_eval)
  have es: "listdir (fsys w1) (source_dir_entry panel) = Inr ([''a.png''] @ ''sub'' # [''z.png''])"
    by (simp add: w1_def ensure_missing_dir_def path_eval world_eval)
  have names: "list_all is_name [''a.png'']"
    by (simp add: is_name_def)
  have pre: "copy_loop (source_dir_entry panel) (missing_dir_entry panel) (base_names [])
                (check_var panel \<noteq> 0) [0, 0, 0] [''a.png''] 0 w1 = (Inr 1, w2)"
    by (simp add: w2_def w1_def run_eval world_eval)
  have fl: "flagged (fsys w2) (source_dir_entry panel) (base_names []) (check_var panel \<noteq> 0) [0, 0, 0] ''sub''"
    by (simp add: flagged_def string_eval world_eval)
  have fail: "copy_fs (join (source_dir_entry panel) ''sub'') (join (missing_dir_entry panel) ''sub'') (fsys w2)
      = Inl IsADirectoryError"
    by (simp add: w2_def w1_def run_eval world_eval)
  have w2: "copied w2 = [(''/s/a.png'', ''/m/a.png'')]"
    "read_file (fsys w2) ''/m/a.png'' = Inr (Img black)"
    "\<not> path_exists (fsys w2) ''/m/z.png''"
    by (simp_all add: w2_def w1_def run_eval world_eval)
  show ?thesis
    using copy_failure_propagates [OF valid ens rgb us es names pre fl fail] w2
    by (simp add: world_eval)
qed

subsection \<open>The colour string\<close>

















section \<open>Running the function twice\<close>



end
